theory Spec2Isabelle
  imports Complex_Main "HOL-Library.Word" "HOL-Library.Log_Nat"
begin

section \<open>Strings\<close>

text \<open>
  A JavaScript string is a sequence of UTF-16 code units; \<open>length\<close>, \<open>trim\<close>,
  \<open>split\<close> and \<open>substring\<close> all count code units.
\<close>

type_synonym jschar = "16 word"
type_synonym jsstring = "jschar list"

text \<open>
  The characters removed by \<open>String.prototype.trim\<close> and matched by the regular
  expression class \<open>\s\<close>: ECMAScript WhiteSpace (TAB, VT, FF, ZWNBSP and the
  Unicode space separators) together with LineTerminator (LF, CR, LS, PS).
\<close>

definition isWhiteSpace :: "jschar \<Rightarrow> bool" where
  "isWhiteSpace c \<longleftrightarrow>
     c = 0x0009 \<or> c = 0x000A \<or> c = 0x000B \<or> c = 0x000C \<or> c = 0x000D \<or>
     c = 0x0020 \<or> c = 0x00A0 \<or> c = 0x1680 \<or>
     (0x2000 \<le> c \<and> c \<le> 0x200A) \<or>
     c = 0x2028 \<or> c = 0x2029 \<or> c = 0x202F \<or> c = 0x205F \<or>
     c = 0x3000 \<or> c = 0xFEFF"

definition LF :: jschar where
  "LF = 0x000A"

text \<open>\<open>s.trim()\<close>\<close>

definition trim :: "jsstring \<Rightarrow> jsstring" where
  "trim s = rev (dropWhile isWhiteSpace (rev (dropWhile isWhiteSpace s)))"

text \<open>
  \<open>s.split(sep)\<close> for a one-character separator: the pieces between the
  occurrences of \<open>sep\<close>; the empty string gives one empty piece.
\<close>

function splitOn :: "jschar \<Rightarrow> jsstring \<Rightarrow> jsstring list" where
  "splitOn sep s =
     (case dropWhile (\<lambda>c. c \<noteq> sep) s of
        [] \<Rightarrow> [s]
      | _ # rest \<Rightarrow> takeWhile (\<lambda>c. c \<noteq> sep) s # splitOn sep rest)"
  by pat_completeness auto
termination
proof (relation "measure (\<lambda>(sep, s). length s)")
  fix sep :: jschar and s rest :: jsstring and c :: jschar
  assume "dropWhile (\<lambda>c. c \<noteq> sep) s = c # rest"
  then have "length s = length (takeWhile (\<lambda>c. c \<noteq> sep) s) + Suc (length rest)"
    by (metis length_Cons length_append takeWhile_dropWhile_id)
  then show "((sep, rest), (sep, s)) \<in> measure (\<lambda>(sep, s). length s)"
    by simp
qed simp

declare splitOn.simps [simp del]

text \<open>
  \<open>s.split(/\s+/)\<close>: the pieces between the maximal runs of white space. A run at
  the start or at the end of \<open>s\<close> leaves an empty piece there, and the empty
  string gives one empty piece.
\<close>

function splitWS :: "jsstring \<Rightarrow> jsstring list" where
  "splitWS s =
     (case dropWhile (\<lambda>c. \<not> isWhiteSpace c) s of
        [] \<Rightarrow> [s]
      | _ # rest \<Rightarrow>
          takeWhile (\<lambda>c. \<not> isWhiteSpace c) s # splitWS (dropWhile isWhiteSpace rest))"
  by pat_completeness auto
termination
proof (relation "measure length")
  fix s rest :: jsstring and c :: jschar
  assume "dropWhile (\<lambda>c. \<not> isWhiteSpace c) s = c # rest"
  then have "length s = length (takeWhile (\<lambda>c. \<not> isWhiteSpace c) s) + Suc (length rest)"
    by (metis length_Cons length_append takeWhile_dropWhile_id)
  moreover have "length (dropWhile isWhiteSpace rest) \<le> length rest"
    by (rule length_dropWhile_le)
  ultimately show "(dropWhile isWhiteSpace rest, s) \<in> measure length"
    by simp
qed simp

declare splitWS.simps [simp del]

text \<open>\<open>s.substring(from, to)\<close> for \<open>from \<le> to\<close>.\<close>

definition substring :: "nat \<Rightarrow> nat \<Rightarrow> jsstring \<Rightarrow> jsstring" where
  "substring from to s = take (to - from) (drop from s)"

section \<open>The text parser\<close>

record Person =
  person_id :: jsstring
  person_name :: jsstring
  parents :: "jsstring list"
  siblings :: "jsstring list"

text \<open>
  The three messages of the parser are template strings in Hebrew; a message is
  represented by its kind together with the numbers interpolated into it (the remainder
  and the count of non-empty lines).
\<close>

datatype message =
    EmptyText
  | OneIncompleteLine nat
  | IncompleteLines nat nat

record ParseError =
  message :: message
  remainderLines :: "jsstring list"

datatype ParseResult =
    Success "Person list"
  | Failure ParseError

text \<open>Reading a property of \<open>undefined\<close> throws.\<close>

datatype jsError = TypeError

text \<open>
  \<open>generateId\<close>: the argument is the value of \<open>Math.random().toString(36)\<close> of
  this call.
\<close>

definition generateId :: "jsstring \<Rightarrow> jsstring" where
  "generateId r = substring 2 11 r"

definition allLines :: "jsstring \<Rightarrow> jsstring list" where
  "allLines text = map trim (splitOn LF text)"

definition nonEmptyLines :: "jsstring \<Rightarrow> jsstring list" where
  "nonEmptyLines text = filter (\<lambda>line. 0 < length line) (allLines text)"

definition tokens :: "jsstring \<Rightarrow> jsstring list" where
  "tokens line = filter (\<lambda>s. 0 < length s) (splitWS line)"

text \<open>
  The loop over the non-empty lines, three at a time. \<open>rand36 k\<close> is the value of
  \<open>Math.random().toString(36)\<close> in the \<open>k\<close>-th call of \<open>generateId\<close>;
  \<open>k\<close> counts the calls made so far. A line read past the end of the array is
  \<open>undefined\<close>, and calling \<open>split\<close> on it throws.
\<close>

function peopleLoop ::
  "(nat \<Rightarrow> jsstring) \<Rightarrow> jsstring list \<Rightarrow> nat \<Rightarrow> nat \<Rightarrow> Person list \<Rightarrow> jsError + Person list"
where
  "peopleLoop rand36 ls i k people =
     (if i < length ls then
        (if i + 1 < length ls \<and> i + 2 < length ls then
           peopleLoop rand36 ls (i + 3) (k + 1)
             (people @
               [\<lparr>person_id = generateId (rand36 k),
                 person_name = ls ! i,
                 parents = tokens (ls ! (i + 1)),
                 siblings = tokens (ls ! (i + 2))\<rparr>])
         else Inl TypeError)
      else Inr people)"
  by pat_completeness auto
termination
  by (relation "measure (\<lambda>(rand36, ls, i, k, people). length ls - i)") auto

declare peopleLoop.simps [simp del]

definition parsePeopleText :: "(nat \<Rightarrow> jsstring) \<Rightarrow> jsstring \<Rightarrow> jsError + ParseResult" where
  "parsePeopleText rand36 text =
     (let ls = nonEmptyLines text in
      if length ls = 0 then
        Inr (Failure \<lparr>message = EmptyText, remainderLines = []\<rparr>)
      else
        let remainder = length ls mod 3 in
        if remainder \<noteq> 0 then
          let lastGroupStart = length ls - remainder;
              remLines = drop lastGroupStart ls;
              msg = (if remainder = 1 then OneIncompleteLine (length ls)
                     else IncompleteLines remainder (length ls))
          in Inr (Failure \<lparr>message = msg, remainderLines = remLines\<rparr>)
        else
          (case peopleLoop rand36 ls 0 0 [] of
             Inl e \<Rightarrow> Inl e
           | Inr people \<Rightarrow> Inr (Success people)))"


section \<open>JavaScript numbers and arrays\<close>

text \<open>
  Weights and times are JavaScript numbers. They are modelled as mathematical reals, with
  \<open>None\<close> for \<open>NaN\<close>: arithmetic on \<open>NaN\<close> gives \<open>NaN\<close>, and every
  comparison with \<open>NaN\<close> is false. Rounding of the double arithmetic is not modelled.
\<close>

type_synonym jsnum = "real option"

definition num_add :: "jsnum \<Rightarrow> jsnum \<Rightarrow> jsnum" where
  "num_add a b = (case a of None \<Rightarrow> None | Some x \<Rightarrow> map_option (\<lambda>y. x + y) b)"

definition num_sub :: "jsnum \<Rightarrow> jsnum \<Rightarrow> jsnum" where
  "num_sub a b = (case a of None \<Rightarrow> None | Some x \<Rightarrow> map_option (\<lambda>y. x - y) b)"

definition num_mul :: "jsnum \<Rightarrow> jsnum \<Rightarrow> jsnum" where
  "num_mul a b = (case a of None \<Rightarrow> None | Some x \<Rightarrow> map_option (\<lambda>y. x * y) b)"

definition num_le :: "jsnum \<Rightarrow> real \<Rightarrow> bool" where
  "num_le a y = (case a of None \<Rightarrow> False | Some x \<Rightarrow> x \<le> y)"

text \<open>\<open>xs[i]\<close>: \<open>None\<close> is \<open>undefined\<close>, the value read outside the array.\<close>

definition arrayGet :: "'a list \<Rightarrow> int \<Rightarrow> 'a option" where
  "arrayGet xs i = (if 0 \<le> i \<and> i < int (length xs) then Some (xs ! nat i) else None)"

text \<open>\<open>xs.findIndex(P)\<close>: \<open>None\<close> is the result \<open>-1\<close>.\<close>

fun findIndex :: "('a \<Rightarrow> bool) \<Rightarrow> 'a list \<Rightarrow> nat option" where
  "findIndex P [] = None"
| "findIndex P (x # xs) = (if P x then Some 0 else map_option Suc (findIndex P xs))"

text \<open>\<open>xs.splice(idx, 1)\<close>, the array that is left.\<close>

definition splice1 :: "nat \<Rightarrow> 'a list \<Rightarrow> 'a list" where
  "splice1 idx xs = take idx xs @ drop (Suc idx) xs"

text \<open>\<open>xs.join(sep)\<close>\<close>

fun join :: "jsstring \<Rightarrow> jsstring list \<Rightarrow> jsstring" where
  "join sep [] = []"
| "join sep [x] = x"
| "join sep (x # y # ys) = x @ sep @ join sep (y # ys)"

section \<open>Double precision\<close>

text \<open>
  The accuracies are computed with the division and the multiplication of IEEE 754
  doubles, which return the exact result rounded to the nearest double, ties to even. A
  finite double is a rational number, so the accuracies are rationals and rounding is a
  function on rationals. \<open>round53\<close> is that rounding on the range of the normal
  doubles, \<open>2^-1022 \<le> \<bar>x\<bar> < 2^1024\<close>; the exponent is not bounded here.
  The operands are counters, integers below \<open>2^53\<close> that a double holds exactly,
  so a quotient of two of them is 0 or lies between \<open>2^-53\<close> and \<open>2^53\<close>
  in magnitude, and it and its product with 100 are in that range.
\<close>

text \<open>
  \<open>ilog2 x\<close> is the integer \<open>k\<close> with \<open>2^k \<le> x < 2^(k+1)\<close>, for
  \<open>x > 0\<close>.
\<close>

definition ilog2 :: "rat \<Rightarrow> int" where
  "ilog2 x =
     (let (a, b) = quotient_of x;
          k = bitlen a - bitlen b
      in if 2 powi k \<le> x then k else k - 1)"

text \<open>The nearest integer, a tie going to the even one.\<close>

definition roundHalfEven :: "rat \<Rightarrow> int" where
  "roundHalfEven y =
     (let f = \<lfloor>y\<rfloor>;
          d = y - of_int f
      in if d < 1 / 2 then f
         else if 1 / 2 < d then f + 1
         else if even f then f else f + 1)"

text \<open>
  The nearest number with a significand of 53 bits, ties to even: \<open>x\<close> is scaled
  into \<open>[2^52, 2^53)\<close>, rounded to an integer and scaled back.
\<close>

definition round53 :: "rat \<Rightarrow> rat" where
  "round53 x =
     (if x = 0 then 0
      else
        let e = ilog2 \<bar>x\<bar> - 52;
            m = roundHalfEven (\<bar>x\<bar> / 2 powi e)
        in sgn x * of_int m * 2 powi e)"

text \<open>
  The operators \<open>/\<close> and \<open>*\<close> on doubles: the exact result, rounded. Both
  divisions of the code are guarded by a test that the divisor is positive, so division by
  0 is not modelled.
\<close>

definition double_div :: "rat \<Rightarrow> rat \<Rightarrow> rat" where
  "double_div a b = round53 (a / b)"

definition double_mul :: "rat \<Rightarrow> rat \<Rightarrow> rat" where
  "double_mul a b = round53 (a * b)"

section \<open>Leitner box spaced repetition\<close>

text \<open>
  Boxes, streaks, counters and timestamps are JavaScript numbers that hold integers; they
  are modelled as unbounded integers.
\<close>

record LeitnerCard =
  card_personId :: jsstring
  box :: int
  lastSeen :: int
  correctStreak :: int

definition LEITNER_BOXES :: int where
  "LEITNER_BOXES = 3"

definition BOX_WEIGHTS :: "real list" where
  "BOX_WEIGHTS = [5, 2, 1]"

text \<open>
  The weight of one candidate in \<open>selectNextPerson\<close>; \<open>now\<close> is the value of
  \<open>Date.now()\<close> read for this candidate. Without a card the time since the last
  answer is \<open>Infinity\<close>, so the recency bonus is its cap 10. A box outside the table
  makes the weight \<open>undefined + recencyBonus\<close>, which is \<open>NaN\<close>.
\<close>

definition cardWeight :: "int \<Rightarrow> LeitnerCard option \<Rightarrow> jsnum" where
  "cardWeight now lcard =
     (let b = (case lcard of Some c \<Rightarrow> min (box c) (LEITNER_BOXES - 1) | None \<Rightarrow> 0);
          recencyBonus =
            (case lcard of
               Some c \<Rightarrow> min (real_of_int (now - lastSeen c) / (1000 * 60)) 10
             | None \<Rightarrow> 10)
      in map_option (\<lambda>w. w + recencyBonus) (arrayGet BOX_WEIGHTS b))"

text \<open>The loop of the weighted random selection; \<open>None\<close> when it falls through.\<close>

fun pickLoop :: "jsnum \<Rightarrow> (Person \<times> jsnum) list \<Rightarrow> Person option" where
  "pickLoop rand [] = None"
| "pickLoop rand ((person, weight) # rest) =
     (let rand' = num_sub rand weight
      in if num_le rand' 0 then Some person else pickLoop rand' rest)"

text \<open>
  \<open>now j\<close> is the clock read for the \<open>j\<close>-th candidate and \<open>u\<close> the value of
  \<open>Math.random()\<close>. The result \<open>None\<close> is \<open>undefined\<close> (\<open>people[0]\<close> of an
  empty roster).
\<close>

definition selectNextPerson ::
  "(nat \<Rightarrow> int) \<Rightarrow> real \<Rightarrow> Person list \<Rightarrow> (jsstring \<rightharpoonup> LeitnerCard) \<Rightarrow> jsstring option
     \<Rightarrow> Person option"
where
  "selectNextPerson now u people cards lastPersonId =
     (let candidates = filter (\<lambda>p. Some (person_id p) \<noteq> lastPersonId) people in
      if length candidates = 0 then arrayGet people 0
      else
        let weighted =
              map (\<lambda>(j, p). (p, cardWeight (now j) (cards (person_id p))))
                (enumerate 0 candidates);
            totalWeight = foldl (\<lambda>s w. num_add s (snd w)) (Some 0) weighted;
            rand = num_mul (Some u) totalWeight
        in case pickLoop rand weighted of
             Some person \<Rightarrow> Some person
           | None \<Rightarrow> arrayGet candidates 0)"

text \<open>\<open>now\<close> is the value of \<open>Date.now()\<close>.\<close>

definition updateLeitnerCard :: "int \<Rightarrow> LeitnerCard \<Rightarrow> bool \<Rightarrow> LeitnerCard" where
  "updateLeitnerCard now lcard correct =
     (if correct then
        lcard\<lparr>box := min (box lcard + 1) (LEITNER_BOXES - 1),
             lastSeen := now,
             correctStreak := correctStreak lcard + 1\<rparr>
      else
        lcard\<lparr>box := 0, lastSeen := now, correctStreak := 0\<rparr>)"

section \<open>The matching round\<close>

datatype RelationType = RelParents | RelSiblings | RelName

record MatchingPair =
  pair_personId :: jsstring
  pair_name :: jsstring
  answer :: jsstring

record MatchingRound =
  pairs :: "MatchingPair list"
  relation :: RelationType

text \<open>The separator \<open>', '\<close> and the literal shown for a person without siblings.\<close>

definition COMMA_SPACE :: jsstring where
  "COMMA_SPACE = [0x002C, 0x0020]"

definition NO_SIBLINGS :: jsstring where
  "NO_SIBLINGS = [0x05D0, 0x05D9, 0x05DF, 0x0020, 0x05D0, 0x05D7, 0x05D9, 0x05DD]"

text \<open>
  The selection loop of \<open>generateMatchingRound\<close>. Its bound
  \<open>Math.min(4, remaining.length)\<close> is evaluated again before every iteration, on the
  array that \<open>splice\<close> has shortened. \<open>us i\<close> is the value of \<open>Math.random()\<close>
  and \<open>now i\<close> the clock in iteration \<open>i\<close>. Were the selected person
  \<open>undefined\<close>, reading its \<open>id\<close> would throw.
\<close>

function matchLoop ::
  "(nat \<Rightarrow> nat \<Rightarrow> int) \<Rightarrow> (nat \<Rightarrow> real) \<Rightarrow> (jsstring \<rightharpoonup> LeitnerCard) \<Rightarrow> nat
     \<Rightarrow> Person list \<Rightarrow> Person list \<Rightarrow> jsError + Person list"
where
  "matchLoop now us cards i selected remaining =
     (if i < min 4 (length remaining) then
        (case selectNextPerson (now i) (us i) remaining cards
                (map_option person_id (arrayGet selected (int (length selected) - 1))) of
           None \<Rightarrow> Inl TypeError
         | Some person \<Rightarrow>
             matchLoop now us cards (i + 1) (selected @ [person])
               (case findIndex (\<lambda>p. person_id p = person_id person) remaining of
                  Some idx \<Rightarrow> splice1 idx remaining
                | None \<Rightarrow> remaining))
      else Inr selected)"
  by pat_completeness auto
termination
  by (relation "measure (\<lambda>(now, us, cards, i, selected, remaining). 4 - i)") auto

declare matchLoop.simps [simp del]

text \<open>\<open>uRel\<close> is the value of \<open>Math.random()\<close> that chooses the relation.\<close>

definition generateMatchingRound ::
  "real \<Rightarrow> (nat \<Rightarrow> real) \<Rightarrow> (nat \<Rightarrow> nat \<Rightarrow> int) \<Rightarrow> Person list \<Rightarrow> (jsstring \<rightharpoonup> LeitnerCard)
     \<Rightarrow> jsError + MatchingRound"
where
  "generateMatchingRound uRel us now people cards =
     (let askParents = (uRel > 0.5);
          rel = (if askParents then RelParents else RelSiblings)
      in case matchLoop now us cards 0 [] people of
           Inl e \<Rightarrow> Inl e
         | Inr selected \<Rightarrow>
             Inr \<lparr>pairs =
                    map (\<lambda>p. \<lparr>pair_personId = person_id p,
                               pair_name = person_name p,
                               answer =
                                 (if askParents then join COMMA_SPACE (parents p)
                                  else if 0 < length (siblings p)
                                    then join COMMA_SPACE (siblings p)
                                  else NO_SIBLINGS)\<rparr>) selected,
                  relation = rel\<rparr>)"

section \<open>Session statistics\<close>

datatype GameMode =
  Flashcards | TrueFalse | MultipleChoice | Matching | FillBlank | FreeRecall | SpeedRound

record AnswerResult =
  result_personId :: jsstring
  result_correct :: bool
  userAnswer :: jsstring
  correctAnswer :: jsstring
  mode :: GameMode
  timeMs :: "int option"

record SessionStats =
  correct :: int
  wrong :: int
  streak :: int
  bestStreak :: int
  total :: int
  accuracy :: rat
  results :: "AnswerResult list"

record PersonStats =
  stats_personId :: jsstring
  stats_name :: jsstring
  timesAsked :: int
  timesCorrect :: int
  stats_accuracy :: rat

record OverallStats =
  totalSessions :: int
  totalQuestions :: int
  totalCorrect :: int
  personStats :: "jsstring \<rightharpoonup> PersonStats"
  leitnerCards :: "jsstring \<rightharpoonup> LeitnerCard"

definition emptySessionStats :: SessionStats where
  "emptySessionStats =
     \<lparr>correct = 0, wrong = 0, streak = 0, bestStreak = 0, total = 0, accuracy = 0,
      results = []\<rparr>"

text \<open>The update of the session statistics in \<open>handleAnswer\<close>.\<close>

definition handleAnswer_sessionStats :: "AnswerResult \<Rightarrow> SessionStats \<Rightarrow> SessionStats" where
  "handleAnswer_sessionStats result prev =
     (let newCorrect = correct prev + (if result_correct result then 1 else 0);
          newWrong = wrong prev + (if result_correct result then 0 else 1);
          newTotal = total prev + 1;
          newStreak = (if result_correct result then streak prev + 1 else 0);
          newBestStreak = max (bestStreak prev) newStreak
      in \<lparr>correct = newCorrect,
          wrong = newWrong,
          streak = newStreak,
          bestStreak = newBestStreak,
          total = newTotal,
          accuracy =
            (if newTotal > 0
             then double_mul (double_div (of_int newCorrect) (of_int newTotal)) 100
             else 0),
          results = results prev @ [result]\<rparr>)"

text \<open>The session statistics after the answers \<open>rs\<close>, given in order.\<close>

definition sessionOf :: "AnswerResult list \<Rightarrow> SessionStats" where
  "sessionOf rs = fold handleAnswer_sessionStats rs emptySessionStats"

text \<open>The body of the loop over \<open>stats.results\<close> in \<open>finishSession\<close>.\<close>

definition finishSession_step ::
  "Person list \<Rightarrow> AnswerResult \<Rightarrow> (jsstring \<rightharpoonup> PersonStats) \<Rightarrow> (jsstring \<rightharpoonup> PersonStats)"
where
  "finishSession_step people result ps =
     (let existing =
            (case ps (result_personId result) of
               Some e \<Rightarrow> e
             | None \<Rightarrow>
                 \<lparr>stats_personId = result_personId result,
                  stats_name =
                    (case find (\<lambda>p. person_id p = result_personId result) people of
                       Some p \<Rightarrow> person_name p
                     | None \<Rightarrow> []),
                  timesAsked = 0,
                  timesCorrect = 0,
                  stats_accuracy = 0\<rparr>);
          asked = existing\<lparr>timesAsked := timesAsked existing + 1\<rparr>;
          counted =
            (if result_correct result then asked\<lparr>timesCorrect := timesCorrect asked + 1\<rparr>
             else asked);
          rated =
            counted\<lparr>stats_accuracy :=
              (if timesAsked counted > 0
               then
                 double_mul
                   (double_div (of_int (timesCorrect counted)) (of_int (timesAsked counted)))
                   100
               else 0)\<rparr>
      in ps(result_personId result \<mapsto> rated))"

text \<open>
  \<open>finishSession\<close>: the new overall statistics handed to \<open>onUpdateStats\<close>, from
  the overall statistics, the Leitner cards and the roster of the screen.
\<close>

definition finishSession ::
  "OverallStats \<Rightarrow> (jsstring \<rightharpoonup> LeitnerCard) \<Rightarrow> Person list \<Rightarrow> SessionStats \<Rightarrow> OverallStats"
where
  "finishSession overallStats cards people stats =
     overallStats
       \<lparr>totalSessions := totalSessions overallStats + 1,
        totalQuestions := totalQuestions overallStats + total stats,
        totalCorrect := totalCorrect overallStats + correct stats,
        personStats := fold (finishSession_step people) (results stats) (personStats overallStats),
        leitnerCards := cards\<rparr>"

section \<open>Literals\<close>

text \<open>The code units of a string of ASCII characters.\<close>

definition ascii :: "string \<Rightarrow> jsstring" where
  "ascii s = map (\<lambda>c. of_nat (of_char c)) s"

section \<open>Sample inputs\<close>

text \<open>
  Two blocks separated by a blank line, with padded lines; the values of
  \<open>Math.random().toString(36)\<close> for two calls; the roster parsed from them; an
  answer, correct or not; a fresh card.
\<close>

definition sample_text :: jsstring where
  "sample_text = ascii ''a\<newline>b c\<newline>d\<newline>\<newline> e \<newline>f\<newline>g  h''"

definition sample_rand36 :: "nat \<Rightarrow> jsstring" where
  "sample_rand36 k = (if k = 0 then ascii ''0.i'' else ascii ''0.92jk5mvyr2q'')"

definition sample_people :: "Person list" where
  "sample_people =
     [\<lparr>person_id = ascii ''i'', person_name = ascii ''a'',
       parents = [ascii ''b'', ascii ''c''], siblings = [ascii ''d'']\<rparr>,
      \<lparr>person_id = ascii ''92jk5mvyr'', person_name = ascii ''e'',
       parents = [ascii ''f''], siblings = [ascii ''g'', ascii ''h'']\<rparr>]"

definition sample_answer :: "bool \<Rightarrow> AnswerResult" where
  "sample_answer ok =
     \<lparr>result_personId = ascii ''i'', result_correct = ok, userAnswer = [],
      correctAnswer = [], mode = TrueFalse, timeMs = None\<rparr>"

definition sample_card :: LeitnerCard where
  "sample_card = \<lparr>card_personId = ascii ''i'', box = 0, lastSeen = 0, correctStreak = 0\<rparr>"

section \<open>Properties of the parser\<close>

lemma peopleLoop_triples:
  "length ls = i + 3 * m \<Longrightarrow>
   peopleLoop rand36 ls i k acc =
     Inr (acc @ map (\<lambda>j. \<lparr>person_id = generateId (rand36 (k + j)),
                            person_name = ls ! (i + 3 * j),
                            parents = tokens (ls ! (i + 3 * j + 1)),
                            siblings = tokens (ls ! (i + 3 * j + 2))\<rparr>) [0..<m])"
proof (induction m arbitrary: i k acc)
  case 0
  then show ?case by (simp add: peopleLoop.simps)
next
  case (Suc m)
  from Suc.prems have len: "length ls = (i + 3) + 3 * m" by simp
  have step: "peopleLoop rand36 ls i k acc =
      peopleLoop rand36 ls (i + 3) (k + 1)
        (acc @ [\<lparr>person_id = generateId (rand36 k), person_name = ls ! i,
                  parents = tokens (ls ! (i + 1)), siblings = tokens (ls ! (i + 2))\<rparr>])"
    using Suc.prems by (subst peopleLoop.simps) simp
  have upt: "[0..<Suc m] = 0 # map Suc [0..<m]"
    by (simp add: upt_conv_Cons map_Suc_upt del: upt_Suc)
  show ?case
    unfolding step Suc.IH [OF len] upt
    by (simp add: comp_def add.assoc)
qed

lemma parse_success_shape:
  assumes "length (nonEmptyLines text) = 3 * m" and "0 < m"
  shows "parsePeopleText rand36 text =
     Inr (Success (map (\<lambda>j. \<lparr>person_id = generateId (rand36 j),
                            person_name = nonEmptyLines text ! (3 * j),
                            parents = tokens (nonEmptyLines text ! (3 * j + 1)),
                            siblings = tokens (nonEmptyLines text ! (3 * j + 2))\<rparr>) [0..<m]))"
  using assms peopleLoop_triples [of "nonEmptyLines text" 0 m rand36 0 "[]"]
  by (auto simp: parsePeopleText_def Let_def)

lemma dropWhile_keeps_other:
  "c \<in> set xs \<Longrightarrow> \<not> P c \<Longrightarrow> c \<in> set (dropWhile P xs)"
  by (induction xs) auto

lemma trim_has_char:
  assumes "trim s \<noteq> []"
  shows "\<exists>c\<in>set (trim s). \<not> isWhiteSpace c"
proof -
  let ?y = "dropWhile isWhiteSpace s"
  have "?y = [] \<Longrightarrow> trim s = []" by (simp only: trim_def rev.simps dropWhile.simps)
  with assms have ne: "?y \<noteq> []" by blast
  then have nws: "\<not> isWhiteSpace (hd ?y)" by (rule hd_dropWhile)
  from ne have "hd ?y \<in> set (rev ?y)" by simp
  then have "hd ?y \<in> set (dropWhile isWhiteSpace (rev ?y))"
    using nws by (rule dropWhile_keeps_other)
  then have "hd ?y \<in> set (trim s)" by (simp add: trim_def)
  with nws show ?thesis by blast
qed

lemma nonEmptyLines_has_char:
  "l \<in> set (nonEmptyLines text) \<Longrightarrow> l \<noteq> [] \<and> (\<exists>c\<in>set l. \<not> isWhiteSpace c)"
  using trim_has_char by (auto simp: nonEmptyLines_def allLines_def)

lemma splitWS_pieces:
  "p \<in> set (splitWS s) \<Longrightarrow> c \<in> set p \<Longrightarrow> \<not> isWhiteSpace c"
proof (induction s arbitrary: p rule: splitWS.induct)
  case (1 s)
  show ?case
  proof (cases "dropWhile (\<lambda>c. \<not> isWhiteSpace c) s")
    case Nil
    with "1.prems" show ?thesis
      by (subst (asm) splitWS.simps) auto
  next
    case (Cons d rest)
    from "1.prems"(1) Cons
    have "p = takeWhile (\<lambda>c. \<not> isWhiteSpace c) s \<or> p \<in> set (splitWS (dropWhile isWhiteSpace rest))"
      by (subst (asm) splitWS.simps) simp
    then show ?thesis
    proof
      assume "p = takeWhile (\<lambda>c. \<not> isWhiteSpace c) s"
      with "1.prems"(2) show ?thesis by (auto dest: set_takeWhileD)
    next
      assume "p \<in> set (splitWS (dropWhile isWhiteSpace rest))"
      then show ?thesis using "1.IH" [OF Cons] "1.prems"(2) by blast
    qed
  qed
qed

lemma tokens_nonempty:
  "c \<in> set s \<Longrightarrow> \<not> isWhiteSpace c \<Longrightarrow> tokens s \<noteq> []"
proof (induction s arbitrary: c rule: splitWS.induct)
  case (1 s)
  show ?case
  proof (cases "dropWhile (\<lambda>c. \<not> isWhiteSpace c) s")
    case Nil
    then have "splitWS s = [s]" by (subst splitWS.simps) (simp only: list.case)
    moreover from "1.prems" have "s \<noteq> []" by auto
    ultimately show ?thesis by (simp add: tokens_def)
  next
    case (Cons d rest)
    have d: "isWhiteSpace d"
      using hd_dropWhile [of "\<lambda>c. \<not> isWhiteSpace c" s] Cons by simp
    have unf: "splitWS s = takeWhile (\<lambda>c. \<not> isWhiteSpace c) s # splitWS (dropWhile isWhiteSpace rest)"
      using Cons by (subst splitWS.simps) simp
    show ?thesis
    proof (cases "takeWhile (\<lambda>c. \<not> isWhiteSpace c) s = []")
      case False
      then show ?thesis unfolding tokens_def unf by simp
    next
      case True
      have "s = takeWhile (\<lambda>c. \<not> isWhiteSpace c) s @ d # rest"
        using Cons by (metis takeWhile_dropWhile_id)
      with True have "s = d # rest" by simp
      with "1.prems" d have "c \<in> set rest" by auto
      then have "c \<in> set (dropWhile isWhiteSpace rest)"
        using "1.prems"(2) by (rule dropWhile_keeps_other)
      from "1.IH" [OF Cons this "1.prems"(2)]
      show ?thesis unfolding tokens_def unf by simp
    qed
  qed
qed

lemma tokens_clean:
  "t \<in> set (tokens s) \<Longrightarrow> t \<noteq> [] \<and> (\<forall>c\<in>set t. \<not> isWhiteSpace c)"
  using splitWS_pieces by (auto simp: tokens_def)

lemma drop_last_one:
  assumes "xs \<noteq> []"
  shows "drop (length xs - 1) xs = [last xs]"
proof -
  from assms obtain ys y where "xs = ys @ [y]"
    by (cases xs rule: rev_cases) auto
  then show ?thesis by simp
qed

lemma drop_last_two:
  assumes "2 \<le> length xs"
  shows "drop (length xs - 2) xs = [xs ! (length xs - 2), xs ! (length xs - 1)]"
proof -
  let ?n = "length xs"
  have a: "drop (?n - 2) xs = xs ! (?n - 2) # drop (Suc (?n - 2)) xs"
    using assms by (intro Cons_nth_drop_Suc [symmetric]) simp
  have s: "Suc (?n - 2) = ?n - 1" using assms by simp
  have b: "drop (?n - 1) xs = xs ! (?n - 1) # drop (Suc (?n - 1)) xs"
    using assms by (intro Cons_nth_drop_Suc [symmetric]) simp
  have "drop (Suc (?n - 1)) xs = []" by simp
  with a b s show ?thesis by simp
qed

lemma splitOn_no_sep:
  assumes "sep \<notin> set s"
  shows "splitOn sep s = [s]"
proof -
  from assms have "dropWhile (\<lambda>c. c \<noteq> sep) s = []" by auto
  then show ?thesis by (subst splitOn.simps) (simp only: list.case)
qed

lemma splitOn_sep:
  assumes "sep \<notin> set a"
  shows "splitOn sep (a @ sep # rest) = a # splitOn sep rest"
proof -
  from assms have d: "dropWhile (\<lambda>c. c \<noteq> sep) (a @ sep # rest) = sep # rest"
    by (subst dropWhile_append2) auto
  from assms have t: "takeWhile (\<lambda>c. c \<noteq> sep) (a @ sep # rest) = a"
    by (subst takeWhile_append2) auto
  show ?thesis by (subst splitOn.simps) (simp only: d t list.case)
qed

lemma blank_third_line_lines:
  assumes "LF \<notin> set nameLine" and "LF \<notin> set parentsLine" and "LF \<notin> set thirdLine"
    and "trim nameLine \<noteq> []" and "trim parentsLine \<noteq> []" and "trim thirdLine = []"
  shows "nonEmptyLines (nameLine @ LF # parentsLine @ LF # thirdLine) =
    [trim nameLine, trim parentsLine]"
proof -
  have "splitOn LF (nameLine @ LF # parentsLine @ LF # thirdLine) =
      [nameLine, parentsLine, thirdLine]"
    using assms(1-3) by (simp add: splitOn_sep splitOn_no_sep)
  with assms(4-6) show ?thesis by (simp add: nonEmptyLines_def allLines_def)
qed

lemma parse_success_person:
  assumes "parsePeopleText rand36 text = Inr (Success people)" and "p \<in> set people"
  shows "\<exists>a b c. a \<in> set (nonEmptyLines text) \<and> b \<in> set (nonEmptyLines text) \<and>
           c \<in> set (nonEmptyLines text) \<and>
           person_name p = a \<and> parents p = tokens b \<and> siblings p = tokens c"
proof -
  let ?ls = "nonEmptyLines text"
  let ?n = "length ?ls"
  have pos: "0 < ?n" and div: "?n mod 3 = 0"
    using assms(1) by (auto simp: parsePeopleText_def Let_def split: if_splits)
  then have len: "?n = 3 * (?n div 3)" and m: "0 < ?n div 3" by presburger+
  from parse_success_shape [OF len m, of rand36] assms(1)
  have "people = map (\<lambda>j. \<lparr>person_id = generateId (rand36 j),
                            person_name = ?ls ! (3 * j),
                            parents = tokens (?ls ! (3 * j + 1)),
                            siblings = tokens (?ls ! (3 * j + 2))\<rparr>) [0..<?n div 3]"
    by simp
  with assms(2) obtain j where j: "j < ?n div 3"
    and p: "p = \<lparr>person_id = generateId (rand36 j),
                 person_name = ?ls ! (3 * j),
                 parents = tokens (?ls ! (3 * j + 1)),
                 siblings = tokens (?ls ! (3 * j + 2))\<rparr>"
    by auto
  from j len have "3 * j < ?n" "3 * j + 1 < ?n" "3 * j + 2 < ?n" by linarith+
  then have "?ls ! (3 * j) \<in> set ?ls" "?ls ! (3 * j + 1) \<in> set ?ls" "?ls ! (3 * j + 2) \<in> set ?ls"
    by (simp_all only: nth_mem)
  with p show ?thesis by (intro exI [of _ "?ls ! (3 * j)"] exI [of _ "?ls ! (3 * j + 1)"]
        exI [of _ "?ls ! (3 * j + 2)"]) simp
qed

lemma parse_success_fields:
  assumes "parsePeopleText rand36 text = Inr (Success people)" and "p \<in> set people"
  shows "person_name p \<noteq> []" and "parents p \<noteq> []" and "siblings p \<noteq> []"
    and "t \<in> set (parents p) \<union> set (siblings p) \<Longrightarrow> t \<noteq> [] \<and> (\<forall>c\<in>set t. \<not> isWhiteSpace c)"
proof -
  from parse_success_person [OF assms]
  obtain a b c where mem: "a \<in> set (nonEmptyLines text)" "b \<in> set (nonEmptyLines text)"
      "c \<in> set (nonEmptyLines text)"
    and p: "person_name p = a" "parents p = tokens b" "siblings p = tokens c"
    by blast
  from mem(1) p(1) show "person_name p \<noteq> []"
    using nonEmptyLines_has_char by blast
  from mem(2) p(2) show "parents p \<noteq> []"
    using nonEmptyLines_has_char tokens_nonempty by metis
  from mem(3) p(3) show "siblings p \<noteq> []"
    using nonEmptyLines_has_char tokens_nonempty by metis
  show "t \<in> set (parents p) \<union> set (siblings p) \<Longrightarrow> t \<noteq> [] \<and> (\<forall>c\<in>set t. \<not> isWhiteSpace c)"
    using p tokens_clean by auto
qed

text \<open>
  Claim C1. When the number of non-empty trimmed lines is a positive multiple of 3, say
  \<open>3 * m\<close>, the parser succeeds and returns \<open>m\<close> people in the order of the
  triples: the \<open>j\<close>-th person has line \<open>3 * j\<close> as its name, the tokens of
  line \<open>3 * j + 1\<close> (split at runs of white space, empty pieces dropped) as its
  parents, the tokens of line \<open>3 * j + 2\<close> as its siblings, and the id made by the
  \<open>j\<close>-th call of \<open>generateId\<close>.
\<close>

theorem parse_valid_blocks:
  assumes "length (nonEmptyLines text) = 3 * m" and "0 < m"
  shows "parsePeopleText rand36 text =
     Inr (Success (map (\<lambda>j. \<lparr>person_id = generateId (rand36 j),
                            person_name = nonEmptyLines text ! (3 * j),
                            parents = tokens (nonEmptyLines text ! (3 * j + 1)),
                            siblings = tokens (nonEmptyLines text ! (3 * j + 2))\<rparr>) [0..<m]))"
  using assms by (rule parse_success_shape)

theorem parse_valid_blocks_witness:
  "length (nonEmptyLines sample_text) = 3 * 2 \<and> (0::nat) < 2 \<and>
   parsePeopleText sample_rand36 sample_text = Inr (Success sample_people)"
proof -
  have len: "length (nonEmptyLines sample_text) = 3 * 2" by code_simp
  have pos: "(0::nat) < 2" by simp
  have ev: "map (\<lambda>j. \<lparr>person_id = generateId (sample_rand36 j),
                        person_name = nonEmptyLines sample_text ! (3 * j),
                        parents = tokens (nonEmptyLines sample_text ! (3 * j + 1)),
                        siblings = tokens (nonEmptyLines sample_text ! (3 * j + 2))\<rparr>) [0..<2]
            = sample_people"
    by code_simp
  from parse_valid_blocks [OF len pos, of sample_rand36]
  have "parsePeopleText sample_rand36 sample_text = Inr (Success sample_people)"
    by (simp only: ev)
  with len pos show ?thesis by blast
qed

text \<open>
  Claim C2. The parser fails in exactly two cases. Without a non-empty line it fails with
  the empty-input message and no remainder lines. With a count of non-empty lines that
  leaves remainder 1 or 2 modulo 3 it fails with the last one or the last two non-empty
  lines as remainder lines, the message being of the kind for one incomplete line in the
  first case and of the kind for several incomplete lines in the second. In every other
  case it succeeds.
\<close>

theorem parse_outcomes:
  "parsePeopleText rand36 text =
     (if length (nonEmptyLines text) = 0 then
        Inr (Failure \<lparr>message = EmptyText, remainderLines = []\<rparr>)
      else if length (nonEmptyLines text) mod 3 = 1 then
        Inr (Failure
          \<lparr>message = OneIncompleteLine (length (nonEmptyLines text)),
           remainderLines = [last (nonEmptyLines text)]\<rparr>)
      else if length (nonEmptyLines text) mod 3 = 2 then
        Inr (Failure
          \<lparr>message = IncompleteLines 2 (length (nonEmptyLines text)),
           remainderLines =
             [nonEmptyLines text ! (length (nonEmptyLines text) - 2),
              nonEmptyLines text ! (length (nonEmptyLines text) - 1)]\<rparr>)
      else
        Inr (Success
          (map (\<lambda>j. \<lparr>person_id = generateId (rand36 j),
                      person_name = nonEmptyLines text ! (3 * j),
                      parents = tokens (nonEmptyLines text ! (3 * j + 1)),
                      siblings = tokens (nonEmptyLines text ! (3 * j + 2))\<rparr>)
            [0..<length (nonEmptyLines text) div 3])))"
proof -
  let ?ls = "nonEmptyLines text"
  let ?n = "length ?ls"
  have m3: "?n mod 3 = 0 \<or> ?n mod 3 = 1 \<or> ?n mod 3 = 2" by presburger
  have pos: "?n \<noteq> 0 \<Longrightarrow> 0 < ?n" by simp
  consider (empty) "?n = 0" | (one) "?n mod 3 = 1" | (two) "?n mod 3 = 2"
    | (blocks) "0 < ?n" "?n mod 3 = 0"
    using m3 pos by (cases "?n = 0"; cases "?n mod 3 = 1"; cases "?n mod 3 = 2") simp_all
  then show ?thesis
  proof cases
    case empty
    then show ?thesis by (simp add: parsePeopleText_def)
  next
    case one
    then have ne: "?ls \<noteq> []" by auto
    then have "drop (?n - 1) ?ls = [last ?ls]" by (rule drop_last_one)
    with one ne show ?thesis by (simp add: parsePeopleText_def Let_def)
  next
    case two
    then have ge: "2 \<le> ?n" by presburger
    then have "drop (?n - 2) ?ls = [?ls ! (?n - 2), ?ls ! (?n - 1)]" by (rule drop_last_two)
    moreover from ge have "?ls \<noteq> []" by auto
    ultimately show ?thesis using two by (simp add: parsePeopleText_def Let_def)
  next
    case blocks
    then have len: "?n = 3 * (?n div 3)" and pos: "0 < ?n div 3" by presburger+
    from parse_success_shape [OF len pos, of rand36] blocks show ?thesis by simp
  qed
qed

text \<open>
  Claim C10. Every person of a successful parse has a non-empty name, at least one parent
  and at least one sibling, and every parent and sibling is a non-empty token without
  white space.
\<close>

theorem parse_people_wellformed:
  assumes "parsePeopleText rand36 text = Inr (Success people)" and "p \<in> set people"
  shows "person_name p \<noteq> [] \<and> 1 \<le> length (parents p) \<and> 1 \<le> length (siblings p) \<and>
    (\<forall>t\<in>set (parents p) \<union> set (siblings p). t \<noteq> [] \<and> (\<forall>c\<in>set t. \<not> isWhiteSpace c))"
  using parse_success_fields [OF assms] by (auto simp: Suc_le_eq)

theorem parse_people_wellformed_witness:
  "parsePeopleText sample_rand36 sample_text = Inr (Success sample_people) \<and>
   hd sample_people \<in> set sample_people \<and>
   person_name (hd sample_people) \<noteq> [] \<and>
   1 \<le> length (parents (hd sample_people)) \<and>
   1 \<le> length (siblings (hd sample_people)) \<and>
   list_all (\<lambda>t. t \<noteq> [] \<and> list_all (\<lambda>c. \<not> isWhiteSpace c) t)
     (parents (hd sample_people) @ siblings (hd sample_people))"
proof -
  have ok: "parsePeopleText sample_rand36 sample_text = Inr (Success sample_people)"
    by code_simp
  have mem: "hd sample_people \<in> set sample_people"
    by (simp add: sample_people_def)
  from parse_people_wellformed [OF ok mem] ok mem show ?thesis
    by (simp add: list_all_iff)
qed

text \<open>
  Claim C6, as stated, fails: no input at all makes the parser return a person whose
  siblings list is empty.
\<close>

theorem parse_empty_siblings_counterexample:
  "\<not> (\<exists>rand36 text people p.
        parsePeopleText rand36 text = Inr (Success people) \<and> p \<in> set people \<and> siblings p = [])"
  using parse_success_fields(3) by blast

text \<open>
  Claim C6, amended. Empty lines are dropped before the blocks are formed. An input made
  of a name line, a parents line and a third line that is empty or blank has two
  non-empty lines: the parser fails with the message for several incomplete lines
  (remainder 2 of 2 lines) and the trimmed name and parents lines as remainder lines. And
  every person of a successful parse has a non-empty siblings list.
\<close>

theorem parse_blank_third_line:
  "(LF \<notin> set nameLine \<and> LF \<notin> set parentsLine \<and> LF \<notin> set thirdLine \<and>
    trim nameLine \<noteq> [] \<and> trim parentsLine \<noteq> [] \<and> trim thirdLine = [] \<longrightarrow>
    parsePeopleText rand36 (nameLine @ LF # parentsLine @ LF # thirdLine) =
      Inr (Failure \<lparr>message = IncompleteLines 2 2,
                    remainderLines = [trim nameLine, trim parentsLine]\<rparr>)) \<and>
   (parsePeopleText r t = Inr (Success people) \<and> p \<in> set people \<longrightarrow> siblings p \<noteq> [])"
proof (intro conjI impI)
  assume a: "LF \<notin> set nameLine \<and> LF \<notin> set parentsLine \<and> LF \<notin> set thirdLine \<and>
    trim nameLine \<noteq> [] \<and> trim parentsLine \<noteq> [] \<and> trim thirdLine = []"
  then have "nonEmptyLines (nameLine @ LF # parentsLine @ LF # thirdLine) =
      [trim nameLine, trim parentsLine]"
    by (intro blank_third_line_lines) simp_all
  then show "parsePeopleText rand36 (nameLine @ LF # parentsLine @ LF # thirdLine) =
      Inr (Failure \<lparr>message = IncompleteLines 2 2,
                    remainderLines = [trim nameLine, trim parentsLine]\<rparr>)"
    by (simp add: parsePeopleText_def)
next
  assume "parsePeopleText r t = Inr (Success people) \<and> p \<in> set people"
  then show "siblings p \<noteq> []" using parse_success_fields(3) by blast
qed

theorem parse_blank_third_line_witness:
  "LF \<notin> set (ascii ''a'') \<and> LF \<notin> set (ascii ''b c'') \<and> LF \<notin> set (ascii '' '') \<and>
   trim (ascii ''a'') \<noteq> [] \<and> trim (ascii ''b c'') \<noteq> [] \<and> trim (ascii '' '') = [] \<and>
   parsePeopleText sample_rand36 (ascii ''a\<newline>b c\<newline> '') =
     Inr (Failure \<lparr>message = IncompleteLines 2 2,
                   remainderLines = [ascii ''a'', ascii ''b c'']\<rparr>) \<and>
   parsePeopleText sample_rand36 sample_text = Inr (Success sample_people) \<and>
   hd sample_people \<in> set sample_people \<and>
   siblings (hd sample_people) \<noteq> []"
proof -
  have h: "LF \<notin> set (ascii ''a'') \<and> LF \<notin> set (ascii ''b c'') \<and> LF \<notin> set (ascii '' '') \<and>
      trim (ascii ''a'') \<noteq> [] \<and> trim (ascii ''b c'') \<noteq> [] \<and> trim (ascii '' '') = []"
    by code_simp
  have tr: "trim (ascii ''a'') = ascii ''a''" "trim (ascii ''b c'') = ascii ''b c''"
    by code_simp+
  have tx: "ascii ''a'' @ LF # ascii ''b c'' @ LF # ascii '' '' = ascii ''a\<newline>b c\<newline> ''"
    by code_simp
  have ok: "parsePeopleText sample_rand36 sample_text = Inr (Success sample_people)"
    by code_simp
  have mem: "hd sample_people \<in> set sample_people"
    by (simp add: sample_people_def)
  from parse_blank_third_line [of "ascii ''a''" "ascii ''b c''" "ascii '' ''" sample_rand36
      sample_rand36 sample_text sample_people "hd sample_people"] h ok mem
  have "parsePeopleText sample_rand36 (ascii ''a'' @ LF # ascii ''b c'' @ LF # ascii '' '') =
     Inr (Failure \<lparr>message = IncompleteLines 2 2,
                   remainderLines = [trim (ascii ''a''), trim (ascii ''b c'')]\<rparr>)"
    and "siblings (hd sample_people) \<noteq> []"
    by blast+
  with h ok mem show ?thesis by (simp only: tr tx) blast
qed

text \<open>
  Claim C8 does not hold of the code: the ids are nine characters of a random number and
  nothing compares them. When \<open>Math.random()\<close> gives 0.5 in both calls, whose
  base-36 form is \<open>0.i\<close>, the two people of the roster get the same id.
\<close>

theorem parse_ids_collide:
  "parsePeopleText (\<lambda>k. ascii ''0.i'') (ascii ''a\<newline>b\<newline>c\<newline>d\<newline>e\<newline>f'') =
     Inr (Success
       [\<lparr>person_id = ascii ''i'', person_name = ascii ''a'',
         parents = [ascii ''b''], siblings = [ascii ''c'']\<rparr>,
        \<lparr>person_id = ascii ''i'', person_name = ascii ''d'',
         parents = [ascii ''e''], siblings = [ascii ''f'']\<rparr>])"
  by code_simp

section \<open>Properties of the selection\<close>

lemma pickLoop_mem:
  "pickLoop rand weighted = Some p \<Longrightarrow> p \<in> fst ` set weighted"
  by (induction rand weighted rule: pickLoop.induct) (auto simp: Let_def split: if_splits)

lemma weighted_people:
  "fst ` set (map (\<lambda>(j, p). (p, f j p)) (enumerate n cs)) = set cs"
proof -
  have "map fst (map (\<lambda>(j, p). (p, f j p)) (enumerate n cs)) = map snd (enumerate n cs)"
    by (simp add: case_prod_beta comp_def)
  then have "map fst (map (\<lambda>(j, p). (p, f j p)) (enumerate n cs)) = cs"
    by simp
  then show ?thesis by (metis set_map)
qed

lemma arrayGet_0: "xs \<noteq> [] \<Longrightarrow> arrayGet xs 0 = Some (hd xs)"
  by (cases xs) (simp_all add: arrayGet_def)

lemma selectNextPerson_candidate:
  assumes "filter (\<lambda>p. Some (person_id p) \<noteq> lastPersonId) people \<noteq> []"
  shows "\<exists>p. selectNextPerson now u people cards lastPersonId = Some p \<and>
             p \<in> set people \<and> Some (person_id p) \<noteq> lastPersonId"
proof -
  let ?cs = "filter (\<lambda>p. Some (person_id p) \<noteq> lastPersonId) people"
  let ?w = "map (\<lambda>(j, p). (p, cardWeight (now j) (cards (person_id p)))) (enumerate 0 ?cs)"
  let ?rand = "num_mul (Some u) (foldl (\<lambda>s w. num_add s (snd w)) (Some 0) ?w)"
  have sel: "selectNextPerson now u people cards lastPersonId =
      (case pickLoop ?rand ?w of Some person \<Rightarrow> Some person | None \<Rightarrow> arrayGet ?cs 0)"
    using assms by (simp add: selectNextPerson_def Let_def)
  show ?thesis
  proof (cases "pickLoop ?rand ?w")
    case None
    with sel assms have "selectNextPerson now u people cards lastPersonId = Some (hd ?cs)"
      by (simp add: arrayGet_0)
    moreover have "hd ?cs \<in> set ?cs" using assms by (rule hd_in_set)
    ultimately show ?thesis by auto
  next
    case (Some p)
    then have "p \<in> fst ` set ?w" by (rule pickLoop_mem)
    then have "p \<in> set ?cs" by (simp only: weighted_people)
    with sel Some show ?thesis by auto
  qed
qed

lemma selectNextPerson_member:
  assumes "people \<noteq> []"
  shows "\<exists>p. selectNextPerson now u people cards lastPersonId = Some p \<and> p \<in> set people"
proof (cases "filter (\<lambda>p. Some (person_id p) \<noteq> lastPersonId) people = []")
  case True
  then have "selectNextPerson now u people cards lastPersonId = Some (hd people)"
    using assms by (simp add: selectNextPerson_def arrayGet_0)
  then show ?thesis using assms by simp
next
  case False
  from selectNextPerson_candidate [OF False] show ?thesis by blast
qed

lemma candidates_nonempty:
  assumes "2 \<le> length people" and "distinct (map person_id people)"
  shows "filter (\<lambda>p. Some (person_id p) \<noteq> lastPersonId) people \<noteq> []"
proof
  assume "filter (\<lambda>p. Some (person_id p) \<noteq> lastPersonId) people = []"
  then have all: "\<forall>p\<in>set people. Some (person_id p) = lastPersonId"
    by (simp add: filter_empty_conv)
  from assms(1) obtain a b rest where people: "people = a # b # rest"
    by (cases people; cases "tl people") auto
  with all have "person_id a = person_id b" by (metis list.set_intros(1,2) option.inject)
  with assms(2) people show False by simp
qed

lemma findIndex_Some:
  "x \<in> set xs \<Longrightarrow> P x \<Longrightarrow> \<exists>idx. findIndex P xs = Some idx \<and> idx < length xs"
  by (induction xs) auto

lemma length_splice1: "idx < length xs \<Longrightarrow> length (splice1 idx xs) = length xs - 1"
  by (simp add: splice1_def)

lemma half_le: "r \<le> i \<Longrightarrow> (i + r + 1) div 2 \<le> (i::nat)"
  by linarith

lemma half_gt: "i < r \<Longrightarrow> i + 1 \<le> (i + r + 1) div (2::nat)"
  by linarith

lemma round_count_stop:
  assumes "\<not> i < min 4 r"
  shows "max i (min 4 ((i + r + 1) div 2)) = (i::nat)"
proof -
  have "min 4 ((i + r + 1) div 2) \<le> i"
  proof (cases "4 \<le> i")
    case True
    then show ?thesis by (simp add: min_le_iff_disj)
  next
    case False
    with assms have "r \<le> i" by simp
    then have "(i + r + 1) div 2 \<le> i" by (rule half_le)
    then show ?thesis by (simp add: min_le_iff_disj)
  qed
  then show ?thesis by (rule max_absorb1)
qed

lemma round_count_step:
  assumes "i < min 4 r"
  shows "Suc (max (i + 1) (min 4 ((i + 1 + (r - 1) + 1) div 2)) - (i + 1)) =
   max i (min 4 ((i + r + 1) div 2)) - (i::nat)"
proof -
  define M where "M = min 4 ((i + r + 1) div 2)"
  from assms have i4: "i < 4" and ir: "i < r" by simp_all
  then have eq: "i + 1 + (r - 1) + 1 = i + r + 1" by simp
  have "i + 1 \<le> (i + r + 1) div 2" using ir by (rule half_gt)
  with i4 have ge: "i + 1 \<le> M" unfolding M_def by simp
  then have "max (i + 1) M = M" and "max i M = M"
    by (simp_all add: max_def)
  with ge show ?thesis unfolding eq M_def [symmetric] by simp
qed

lemma matchLoop_length:
  "\<exists>sel. matchLoop now us cards i selected remaining = Inr sel \<and>
     length sel = length selected + (max i (min 4 ((i + length remaining + 1) div 2)) - i)"
proof (induction now us cards i selected remaining rule: matchLoop.induct)
  case (1 now us cards i selected remaining)
  show ?case
  proof (cases "i < min 4 (length remaining)")
    case False
    then have "matchLoop now us cards i selected remaining = Inr selected"
      by (subst matchLoop.simps) auto
    moreover from False have "max i (min 4 ((i + length remaining + 1) div 2)) = i"
      by (rule round_count_stop)
    ultimately show ?thesis by simp
  next
    case True
    then have ne: "remaining \<noteq> []" by auto
    let ?last = "map_option person_id (arrayGet selected (int (length selected) - 1))"
    from selectNextPerson_member [OF ne]
    obtain p where sel: "selectNextPerson (now i) (us i) remaining cards ?last = Some p"
      and mem: "p \<in> set remaining" by blast
    from findIndex_Some [OF mem, of "\<lambda>q. person_id q = person_id p"]
    obtain idx where idx: "findIndex (\<lambda>q. person_id q = person_id p) remaining = Some idx"
      and lt: "idx < length remaining" by auto
    let ?rem = "splice1 idx remaining"
    have step: "matchLoop now us cards i selected remaining =
        matchLoop now us cards (i + 1) (selected @ [p]) ?rem"
      using True sel idx by (subst matchLoop.simps) auto
    have len: "length ?rem = length remaining - 1" using lt by (rule length_splice1)
    have "\<exists>sel'. matchLoop now us cards (i + 1) (selected @ [p]) ?rem = Inr sel' \<and>
        length sel' = length (selected @ [p]) +
          (max (i + 1) (min 4 ((i + 1 + length ?rem + 1) div 2)) - (i + 1))"
      using "1.IH" [OF True sel] by (simp only: idx option.case)
    then obtain sel' where res: "matchLoop now us cards (i + 1) (selected @ [p]) ?rem = Inr sel'"
      and cnt: "length sel' = length (selected @ [p]) +
          (max (i + 1) (min 4 ((i + 1 + length ?rem + 1) div 2)) - (i + 1))"
      by blast
    have "length sel' = Suc (length selected) +
          (max (i + 1) (min 4 ((i + 1 + (length remaining - 1) + 1) div 2)) - (i + 1))"
      using cnt unfolding len by simp
    also have "\<dots> = length selected +
          Suc (max (i + 1) (min 4 ((i + 1 + (length remaining - 1) + 1) div 2)) - (i + 1))"
      by (rule add_Suc_shift)
    also have "\<dots> = length selected + (max i (min 4 ((i + length remaining + 1) div 2)) - i)"
      by (simp only: round_count_step [OF True])
    finally have "length sel' =
        length selected + (max i (min 4 ((i + length remaining + 1) div 2)) - i)" .
    with step res show ?thesis by simp
  qed
qed

text \<open>
  Claim C3. A correct answer moves the card to box \<open>min (box + 1) 2\<close> and adds one
  to the streak; an incorrect answer puts it in box 0 with streak 0, whatever the box and
  the streak were. Five correct answers in a row take a card from box 0 to box 2 exactly,
  and a box in \<open>{0, 1, 2}\<close> stays in \<open>{0, 1, 2}\<close>.
\<close>

theorem updateLeitnerCard_boxes:
  "box (updateLeitnerCard now c True) = min (box c + 1) 2 \<and>
   correctStreak (updateLeitnerCard now c True) = correctStreak c + 1 \<and>
   box (updateLeitnerCard now c False) = 0 \<and>
   correctStreak (updateLeitnerCard now c False) = 0 \<and>
   (box c = 0 \<longrightarrow>
      box (fold (\<lambda>t k. updateLeitnerCard t k True) [t1, t2, t3, t4, t5] c) = 2) \<and>
   (box c \<in> {0, 1, 2} \<longrightarrow> box (updateLeitnerCard now c ok) \<in> {0, 1, 2})"
  by (auto simp: updateLeitnerCard_def LEITNER_BOXES_def)

theorem updateLeitnerCard_boxes_witness:
  "box sample_card = 0 \<and>
   box (fold (\<lambda>t k. updateLeitnerCard t k True) [10, 20, 30, 40, 50] sample_card) = 2 \<and>
   box sample_card \<in> {0, 1, 2} \<and>
   box (updateLeitnerCard 10 sample_card True) = 1 \<and>
   box (updateLeitnerCard 10 sample_card True) \<in> {0, 1, 2}"
proof -
  have b: "box sample_card = 0" by (simp add: sample_card_def)
  from updateLeitnerCard_boxes [of 10 sample_card 10 20 30 40 50 True] b
  show ?thesis by simp
qed

text \<open>
  Claim C4. On a roster of at least two people with distinct ids the selection returns a
  person of the roster whose id is not the excluded one, for every card mapping, every
  clock and every random draw. On a roster of exactly one person it returns that person,
  also when its id is the excluded one.
\<close>

theorem selectNextPerson_excludes:
  "(2 \<le> length people \<and> distinct (map person_id people) \<longrightarrow>
      (\<exists>p. selectNextPerson now u people cards lastPersonId = Some p \<and>
           p \<in> set people \<and> Some (person_id p) \<noteq> lastPersonId)) \<and>
   selectNextPerson now u [q] cards lastPersonId = Some q"
proof (intro conjI impI)
  assume "2 \<le> length people \<and> distinct (map person_id people)"
  then have "filter (\<lambda>p. Some (person_id p) \<noteq> lastPersonId) people \<noteq> []"
    by (intro candidates_nonempty) simp_all
  then show "\<exists>p. selectNextPerson now u people cards lastPersonId = Some p \<and>
           p \<in> set people \<and> Some (person_id p) \<noteq> lastPersonId"
    by (rule selectNextPerson_candidate)
next
  from selectNextPerson_member [of "[q]" now u cards lastPersonId]
  show "selectNextPerson now u [q] cards lastPersonId = Some q" by simp
qed

theorem selectNextPerson_excludes_witness:
  "2 \<le> length sample_people \<and> distinct (map person_id sample_people) \<and>
   selectNextPerson (\<lambda>j. 0) (1 / 2) sample_people Map.empty (Some (ascii ''i'')) =
     Some (sample_people ! 1) \<and>
   selectNextPerson (\<lambda>j. 0) (1 / 2) [hd sample_people] Map.empty (Some (ascii ''i'')) =
     Some (hd sample_people)"
proof -
  have h: "2 \<le> length sample_people \<and> distinct (map person_id sample_people)"
    by code_simp
  have ids: "person_id (sample_people ! 0) = ascii ''i''" "set sample_people = {sample_people ! 0, sample_people ! 1}"
    by (simp_all add: sample_people_def)
  from selectNextPerson_excludes [of sample_people "\<lambda>j. 0" "1 / 2" Map.empty "Some (ascii ''i'')"
      "hd sample_people"] h
  obtain p where "selectNextPerson (\<lambda>j. 0) (1 / 2) sample_people Map.empty (Some (ascii ''i'')) = Some p"
    and "p \<in> set sample_people" and "person_id p \<noteq> ascii ''i''"
    and one: "selectNextPerson (\<lambda>j. 0) (1 / 2) [hd sample_people] Map.empty (Some (ascii ''i'')) =
     Some (hd sample_people)"
    by auto
  with ids have "selectNextPerson (\<lambda>j. 0) (1 / 2) sample_people Map.empty (Some (ascii ''i'')) =
     Some (sample_people ! 1)" by auto
  with h one show ?thesis by blast
qed

text \<open>
  Claim C5 does not hold of the code. The bound of the selection loop is computed from the
  array of remaining people, which loses one person in every iteration, so a roster of
  \<open>n\<close> people yields \<open>min 4 ((n + 1) div 2)\<close> pairs and not
  \<open>min 4 n\<close>: one pair for two people, two pairs for four.
\<close>

theorem generateMatchingRound_size:
  "\<exists>round. generateMatchingRound uRel us now people cards = Inr round \<and>
     length (pairs round) = min 4 ((length people + 1) div 2)"
proof -
  from matchLoop_length [of now us cards 0 "[]" people]
  obtain sel where "matchLoop now us cards 0 [] people = Inr sel"
    and "length sel = min 4 ((length people + 1) div 2)"
    by auto
  then show ?thesis by (simp add: generateMatchingRound_def Let_def)
qed

theorem generateMatchingRound_size_witness:
  "\<exists>round. generateMatchingRound (7 / 10) (\<lambda>i. 1 / 2) (\<lambda>i j. 0) sample_people Map.empty = Inr round \<and>
     length (pairs round) = 1"
  using generateMatchingRound_size [of "7 / 10" "\<lambda>i. 1 / 2" "\<lambda>i j. 0" sample_people Map.empty]
  by (simp add: sample_people_def)

section \<open>Properties of the rounding\<close>

lemma roundHalfEven_err: "\<bar>of_int (roundHalfEven y) - y\<bar> \<le> 1 / 2"
proof -
  have lo: "of_int \<lfloor>y\<rfloor> \<le> y" and hi: "y < of_int \<lfloor>y\<rfloor> + 1"
    by linarith+
  show ?thesis
    using lo hi by (simp add: roundHalfEven_def Let_def; linarith)
qed

lemma ilog2_lower:
  assumes "0 < x"
  shows "2 powi (ilog2 x) \<le> x"
proof -
  obtain a b where q: "quotient_of x = (a, b)" by (cases "quotient_of x")
  then have b: "0 < b" by (rule quotient_of_denom_pos)
  from q have x: "x = of_int a / of_int b" by (rule quotient_of_div)
  with assms b have a: "0 < a" by (simp add: zero_less_divide_iff)
  let ?k = "bitlen a - bitlen b"
  have "2 powi (?k - 1) \<le> x"
  proof -
    from bitlen_bounds [OF a] have "2 ^ nat (bitlen a - 1) \<le> a" by simp
    then have "(2::rat) ^ nat (bitlen a - 1) \<le> of_int a"
      by (metis of_int_le_iff of_int_numeral of_int_power)
    moreover have "1 \<le> bitlen a" using a bitlen_eq_zero_iff [of a] bitlen_nonneg [of a] by linarith
    ultimately have la: "2 powi (bitlen a - 1) \<le> (of_int a :: rat)"
      by (simp add: power_int_def)
    from bitlen_bounds [OF b] have "b < 2 ^ nat (bitlen b)" by simp
    then have "of_int b < (2::rat) ^ nat (bitlen b)"
      by (metis of_int_less_iff of_int_numeral of_int_power)
    then have lb: "(of_int b :: rat) \<le> 2 powi (bitlen b)"
      using bitlen_nonneg [of b] by (simp add: power_int_def)
    have "2 powi (?k - 1) = 2 powi (bitlen a - 1) / (2 powi (bitlen b) :: rat)"
      by (simp add: power_int_diff)
    also have "\<dots> \<le> of_int a / 2 powi (bitlen b)"
      using la by (simp add: divide_right_mono)
    also have "\<dots> \<le> of_int a / of_int b"
      using lb a b by (intro frac_le) simp_all
    finally show ?thesis by (simp add: x)
  qed
  then show ?thesis
    by (simp add: ilog2_def q Let_def)
qed

lemma ilog2_upper:
  assumes "0 < x"
  shows "x < 2 powi (ilog2 x + 1)"
proof -
  obtain a b where q: "quotient_of x = (a, b)" by (cases "quotient_of x")
  then have b: "0 < b" by (rule quotient_of_denom_pos)
  from q have x: "x = of_int a / of_int b" by (rule quotient_of_div)
  with assms b have a: "0 < a" by (simp add: zero_less_divide_iff)
  let ?k = "bitlen a - bitlen b"
  have "x < 2 powi (?k + 1)"
  proof -
    from bitlen_bounds [OF a] have "a < 2 ^ nat (bitlen a)" by simp
    then have "of_int a < (2::rat) ^ nat (bitlen a)"
      by (metis of_int_less_iff of_int_numeral of_int_power)
    then have la: "(of_int a :: rat) < 2 powi (bitlen a)"
      using bitlen_nonneg [of a] by (simp add: power_int_def)
    from bitlen_bounds [OF b] have "2 ^ nat (bitlen b - 1) \<le> b" by simp
    then have "(2::rat) ^ nat (bitlen b - 1) \<le> of_int b"
      by (metis of_int_le_iff of_int_numeral of_int_power)
    moreover have "1 \<le> bitlen b" using b bitlen_eq_zero_iff [of b] bitlen_nonneg [of b] by linarith
    ultimately have lb: "2 powi (bitlen b - 1) \<le> (of_int b :: rat)"
      by (simp add: power_int_def)
    have "of_int a / of_int b < 2 powi (bitlen a) / (of_int b :: rat)"
      using la b by (simp add: divide_strict_right_mono)
    also have "\<dots> \<le> 2 powi (bitlen a) / (2 powi (bitlen b - 1) :: rat)"
      using lb by (intro frac_le) simp_all
    also have "\<dots> = 2 powi (?k + 1)"
      by (simp add: power_int_diff power_int_add)
    finally show ?thesis by (simp add: x)
  qed
  then show ?thesis
    by (auto simp: ilog2_def q Let_def not_le)
qed

text \<open>
  A number that is not 0 is rounded to \<open>m * 2^e\<close> with its sign, where the
  significand \<open>m\<close> has 53 bits (or is \<open>2^53\<close>, the next power of two)
  and is the integer nearest to the scaled number.
\<close>

lemma roundHalfEven_bounds: "\<lfloor>y\<rfloor> \<le> roundHalfEven y \<and> roundHalfEven y \<le> \<lfloor>y\<rfloor> + 1"
  by (simp add: roundHalfEven_def Let_def)

lemma round53_significand:
  assumes "x \<noteq> 0"
  shows "round53 x =
      sgn x * of_int (roundHalfEven (\<bar>x\<bar> / 2 powi (ilog2 \<bar>x\<bar> - 52))) * 2 powi (ilog2 \<bar>x\<bar> - 52) \<and>
    2 ^ 52 \<le> roundHalfEven (\<bar>x\<bar> / 2 powi (ilog2 \<bar>x\<bar> - 52)) \<and>
    roundHalfEven (\<bar>x\<bar> / 2 powi (ilog2 \<bar>x\<bar> - 52)) \<le> 2 ^ 53"
proof -
  define k where "k = ilog2 \<bar>x\<bar>"
  define y where "y = \<bar>x\<bar> / 2 powi (k - 52)"
  from assms have pos: "0 < \<bar>x\<bar>" by simp
  have p: "(0::rat) < 2 powi (k - 52)" by simp
  have "2 powi k \<le> \<bar>x\<bar>" using ilog2_lower [OF pos] by (simp add: k_def)
  then have "2 ^ 52 * 2 powi (k - 52) \<le> \<bar>x\<bar>"
    by (simp add: power_int_diff)
  then have lo: "2 ^ 52 \<le> y"
    unfolding y_def using p by (simp add: pos_le_divide_eq)
  have "\<bar>x\<bar> < 2 powi (k + 1)" using ilog2_upper [OF pos] by (simp add: k_def)
  then have "\<bar>x\<bar> < 2 ^ 53 * 2 powi (k - 52)"
    by (simp add: power_int_diff power_int_add)
  then have hi: "y < 2 ^ 53"
    unfolding y_def using p by (simp add: pos_divide_less_eq)
  have "(2::int) ^ 52 \<le> \<lfloor>y\<rfloor>"
  proof -
    have "of_int ((2::int) ^ 52) \<le> y" using lo by simp
    then show ?thesis by (simp only: le_floor_iff)
  qed
  moreover have "\<lfloor>y\<rfloor> + 1 \<le> (2::int) ^ 53"
  proof -
    have "y < of_int ((2::int) ^ 53)" using hi by simp
    then have "\<lfloor>y\<rfloor> < (2::int) ^ 53" by (simp only: floor_less_iff)
    then show ?thesis by simp
  qed
  ultimately have "2 ^ 52 \<le> roundHalfEven y \<and> roundHalfEven y \<le> 2 ^ 53"
    using roundHalfEven_bounds [of y] by linarith
  moreover have "round53 x = sgn x * of_int (roundHalfEven y) * 2 powi (k - 52)"
    using assms by (simp add: round53_def Let_def y_def k_def)
  ultimately show ?thesis by (simp add: y_def k_def)
qed

lemma round53_err: "\<bar>round53 x - x\<bar> \<le> \<bar>x\<bar> / 2 ^ 53"
proof (cases "x = 0")
  case True
  then show ?thesis by (simp add: round53_def)
next
  case False
  define e where "e = ilog2 \<bar>x\<bar> - 52"
  define m where "m = roundHalfEven (\<bar>x\<bar> / 2 powi e)"
  define p :: rat where "p = 2 powi e"
  have p: "0 < p" by (simp add: p_def)
  from False have pos: "0 < \<bar>x\<bar>" by simp
  have r: "round53 x = sgn x * (of_int m * p)"
    using False by (simp add: round53_def Let_def e_def m_def p_def mult.assoc)
  have xs: "x = sgn x * \<bar>x\<bar>" by (simp add: sgn_mult_abs)
  have "round53 x - x = sgn x * (of_int m * p - \<bar>x\<bar>)"
    by (subst (2) xs) (simp add: r algebra_simps)
  then have "\<bar>round53 x - x\<bar> = \<bar>of_int m * p - \<bar>x\<bar>\<bar>"
    using False by (simp add: abs_mult abs_sgn_eq)
  also have "of_int m * p - \<bar>x\<bar> = (of_int m - \<bar>x\<bar> / p) * p"
    using p by (simp add: algebra_simps)
  also have "\<bar>\<dots>\<bar> = \<bar>of_int m - \<bar>x\<bar> / p\<bar> * p"
    using p by (simp add: abs_mult)
  also have "\<dots> \<le> (1 / 2) * p"
    using roundHalfEven_err [of "\<bar>x\<bar> / p"] p unfolding m_def p_def
    by (intro mult_right_mono) simp_all
  also have "\<dots> \<le> \<bar>x\<bar> / 2 ^ 53"
  proof -
    have "2 powi (e + 52) \<le> \<bar>x\<bar>"
      using ilog2_lower [OF pos] by (simp add: e_def)
    then have "p * 2 ^ 52 \<le> \<bar>x\<bar>"
      by (simp add: p_def power_int_add)
    then show ?thesis by simp
  qed
  finally show ?thesis .
qed

lemma round53_abs_le: "\<bar>round53 x\<bar> \<le> \<bar>x\<bar> * (1 + 1 / 2 ^ 53)"
proof -
  have "\<bar>round53 x\<bar> \<le> \<bar>x\<bar> + \<bar>round53 x - x\<bar>" by linarith
  with round53_err [of x] show ?thesis by (simp add: algebra_simps)
qed

lemma percent_err:
  "\<bar>double_mul (double_div a b) 100 - 100 * (a / b)\<bar> \<le> \<bar>100 * (a / b)\<bar> / 2 ^ 51"
proof -
  define x where "x = a / b"
  define q where "q = round53 x"
  define u :: rat where "u = 1 / 2 ^ 53"
  have u: "0 \<le> u" "u \<le> 1" by (simp_all add: u_def)
  have e1: "\<bar>q - x\<bar> \<le> \<bar>x\<bar> * u"
    using round53_err [of x] by (simp add: q_def u_def)
  have q_le: "\<bar>q\<bar> \<le> \<bar>x\<bar> * (1 + u)"
    using round53_abs_le [of x] by (simp add: q_def u_def)
  have e2: "\<bar>round53 (q * 100) - q * 100\<bar> \<le> \<bar>q\<bar> * 100 * u"
    using round53_err [of "q * 100"] by (simp add: u_def abs_mult)
  have "\<bar>q\<bar> * 100 * u \<le> \<bar>x\<bar> * (1 + u) * 100 * u"
    using q_le u(1) by (intro mult_right_mono) simp_all
  with e2 have e3: "\<bar>round53 (q * 100) - q * 100\<bar> \<le> \<bar>x\<bar> * (1 + u) * 100 * u"
    by linarith
  have "round53 (q * 100) - 100 * x = (round53 (q * 100) - q * 100) + 100 * (q - x)"
    by (simp add: algebra_simps)
  then have "\<bar>round53 (q * 100) - 100 * x\<bar> \<le>
      \<bar>round53 (q * 100) - q * 100\<bar> + \<bar>100 * (q - x)\<bar>"
    by (simp only: abs_triangle_ineq)
  moreover have "\<bar>100 * (q - x)\<bar> = 100 * \<bar>q - x\<bar>"
    by (simp only: abs_mult)
  ultimately have "\<bar>round53 (q * 100) - 100 * x\<bar> \<le>
      \<bar>round53 (q * 100) - q * 100\<bar> + 100 * \<bar>q - x\<bar>"
    by (simp only:)
  also have "\<dots> \<le> \<bar>x\<bar> * (1 + u) * 100 * u + 100 * (\<bar>x\<bar> * u)"
    using e3 e1 by (intro add_mono mult_left_mono) simp_all
  also have "\<dots> = 100 * \<bar>x\<bar> * (u * (2 + u))"
    by (simp add: algebra_simps)
  also have "\<dots> \<le> 100 * \<bar>x\<bar> * (4 * u)"
  proof -
    have "u * (2 + u) \<le> u * 4" using u by (intro mult_left_mono) simp_all
    then show ?thesis by (intro mult_left_mono) (simp_all add: mult.commute)
  qed
  also have "\<dots> = \<bar>100 * x\<bar> / 2 ^ 51"
    by (simp add: u_def abs_mult)
  finally show ?thesis
    by (simp add: double_mul_def double_div_def q_def x_def)
qed

section \<open>Properties of the session statistics\<close>

lemma sessionOf_Nil: "sessionOf [] = emptySessionStats"
  by (simp add: sessionOf_def)

lemma sessionOf_snoc:
  "sessionOf (rs @ [r]) = handleAnswer_sessionStats r (sessionOf rs)"
  by (simp add: sessionOf_def)

lemma session_total: "total (sessionOf rs) = int (length rs)"
  by (induction rs rule: rev_induct)
     (simp_all add: sessionOf_Nil sessionOf_snoc emptySessionStats_def
        handleAnswer_sessionStats_def Let_def)

lemma session_results: "results (sessionOf rs) = rs"
  by (induction rs rule: rev_induct)
     (simp_all add: sessionOf_Nil sessionOf_snoc emptySessionStats_def
        handleAnswer_sessionStats_def Let_def)

lemma session_correct: "correct (sessionOf rs) = int (length (filter result_correct rs))"
  by (induction rs rule: rev_induct)
     (simp_all add: sessionOf_Nil sessionOf_snoc emptySessionStats_def
        handleAnswer_sessionStats_def Let_def)

lemma session_wrong:
  "wrong (sessionOf rs) = int (length (filter (\<lambda>r. \<not> result_correct r) rs))"
  by (induction rs rule: rev_induct)
     (simp_all add: sessionOf_Nil sessionOf_snoc emptySessionStats_def
        handleAnswer_sessionStats_def Let_def)

lemma session_streak:
  "streak (sessionOf rs) = int (length (takeWhile result_correct (rev rs)))"
  by (induction rs rule: rev_induct)
     (simp_all add: sessionOf_Nil sessionOf_snoc emptySessionStats_def
        handleAnswer_sessionStats_def Let_def)

lemma session_bestStreak: "streak (sessionOf rs) \<le> bestStreak (sessionOf rs)"
  by (induction rs rule: rev_induct)
     (simp_all add: sessionOf_Nil sessionOf_snoc emptySessionStats_def
        handleAnswer_sessionStats_def Let_def)

lemma session_accuracy:
  "accuracy (sessionOf rs) =
     (if 0 < total (sessionOf rs)
      then double_mul
             (double_div (of_int (correct (sessionOf rs))) (of_int (total (sessionOf rs)))) 100
      else 0)"
proof (cases rs rule: rev_cases)
  case Nil
  then show ?thesis by (simp add: sessionOf_Nil emptySessionStats_def)
next
  case (snoc xs x)
  then show ?thesis
    by (simp add: sessionOf_snoc handleAnswer_sessionStats_def Let_def)
qed

lemma length_filter_split:
  "length (filter P xs) + length (filter (\<lambda>x. \<not> P x) xs) = length xs"
  by (induction xs) auto

text \<open>
  Claim C9, as stated, fails in its last part: after two correct answers and an incorrect
  one the accuracy is the double 66.66666666666666, which is neither the exact
  \<open>100 * 2 / 3\<close> nor the double nearest to it, 66.66666666666667.
\<close>

theorem session_accuracy_counterexample:
  "correct (sessionOf [sample_answer True, sample_answer True, sample_answer False]) = 2 \<and>
   total (sessionOf [sample_answer True, sample_answer True, sample_answer False]) = 3 \<and>
   accuracy (sessionOf [sample_answer True, sample_answer True, sample_answer False]) =
     2345624805922133 / 35184372088832 \<and>
   accuracy (sessionOf [sample_answer True, sample_answer True, sample_answer False]) \<noteq>
     100 * 2 / 3 \<and>
   accuracy (sessionOf [sample_answer True, sample_answer True, sample_answer False]) \<noteq>
     round53 (100 * 2 / 3)"
  by code_simp

text \<open>
  Claim C9, amended. The session statistics built from the empty statistics by any finite
  sequence of answers satisfy: \<open>correct + wrong = total\<close>, \<open>total\<close> is the
  number of answers, the result log is the sequence of answers, \<open>bestStreak\<close> is
  at least \<open>streak\<close>, and \<open>streak\<close> is the length of the trailing run of
  correct answers. When \<open>total\<close> is positive, \<open>accuracy\<close> is
  \<open>(correct / total) * 100\<close> in double arithmetic, the quotient rounded to a double
  and its product with 100 rounded again, and 0 otherwise; it differs from
  \<open>100 * correct / total\<close> by at most that value divided by \<open>2^51\<close>.
\<close>

theorem session_stats_rounded:
  "correct (sessionOf rs) + wrong (sessionOf rs) = total (sessionOf rs) \<and>
   total (sessionOf rs) = int (length rs) \<and>
   results (sessionOf rs) = rs \<and>
   streak (sessionOf rs) \<le> bestStreak (sessionOf rs) \<and>
   streak (sessionOf rs) = int (length (takeWhile result_correct (rev rs))) \<and>
   accuracy (sessionOf rs) =
     (if 0 < total (sessionOf rs)
      then double_mul
             (double_div (of_int (correct (sessionOf rs))) (of_int (total (sessionOf rs)))) 100
      else 0) \<and>
   \<bar>accuracy (sessionOf rs) -
      100 * (of_int (correct (sessionOf rs)) / of_int (total (sessionOf rs)))\<bar> \<le>
     \<bar>100 * (of_int (correct (sessionOf rs)) / of_int (total (sessionOf rs)))\<bar> / 2 ^ 51"
proof -
  have sum: "correct (sessionOf rs) + wrong (sessionOf rs) = total (sessionOf rs)"
    unfolding session_correct session_wrong session_total
    using length_filter_split [of result_correct rs] by linarith
  have err: "\<bar>accuracy (sessionOf rs) -
      100 * (of_int (correct (sessionOf rs)) / of_int (total (sessionOf rs)))\<bar> \<le>
     \<bar>100 * (of_int (correct (sessionOf rs)) / of_int (total (sessionOf rs)))\<bar> / 2 ^ 51"
  proof (cases "0 < total (sessionOf rs)")
    case True
    then show ?thesis
      using percent_err [of "of_int (correct (sessionOf rs))" "of_int (total (sessionOf rs))"]
      by (simp only: session_accuracy if_True)
  next
    case False
    then have "rs = []" by (simp add: session_total)
    then show ?thesis by (simp add: sessionOf_Nil emptySessionStats_def)
  qed
  from sum err show ?thesis
    using session_total session_results session_bestStreak session_streak session_accuracy
    by blast
qed

text \<open>
  Claim C7. Finishing one session with the answers \<open>xs @ ys\<close> and finishing a session
  with the answers \<open>xs\<close> followed by a session with the answers \<open>ys\<close> (on the
  overall statistics the first one returned, with the same roster) give the same
  \<open>totalQuestions\<close>, the same \<open>totalCorrect\<close> and the same per-person
  statistics; only \<open>totalSessions\<close> is one higher after two sessions. The split of
  \<open>[r1, r2, r3]\<close> into \<open>[r1]\<close> and \<open>[r2, r3]\<close> is the instance
  \<open>xs = [r1]\<close>, \<open>ys = [r2, r3]\<close>.
\<close>

theorem finishSession_split:
  "totalQuestions (finishSession (finishSession overall cards1 people (sessionOf xs))
        cards2 people (sessionOf ys)) =
     totalQuestions (finishSession overall cards people (sessionOf (xs @ ys))) \<and>
   totalCorrect (finishSession (finishSession overall cards1 people (sessionOf xs))
        cards2 people (sessionOf ys)) =
     totalCorrect (finishSession overall cards people (sessionOf (xs @ ys))) \<and>
   personStats (finishSession (finishSession overall cards1 people (sessionOf xs))
        cards2 people (sessionOf ys)) =
     personStats (finishSession overall cards people (sessionOf (xs @ ys))) \<and>
   totalSessions (finishSession (finishSession overall cards1 people (sessionOf xs))
        cards2 people (sessionOf ys)) =
     totalSessions (finishSession overall cards people (sessionOf (xs @ ys))) + 1"
  by (simp add: finishSession_def session_total session_correct session_results)

end
